theory Spec2Isabelle
  imports Main
begin

section \<open>Data model of the uploads context\<close>

text \<open>
  The provider of \<^verbatim>\<open>components/contexts/uploadsContext.js\<close> keeps the uploads of one
  dashboard session. \<^verbatim>\<open>STATUS\<close> is the enumeration exported by the module.
\<close>

datatype STATUS = PENDING | UPLOADING | COMPLETED | FAILED

text \<open>
  A browser \<^verbatim>\<open>File\<close> object. The source compares two of them with \<^verbatim>\<open>===\<close>, which is
  equality of the object reference: \<open>handle\<close> is that reference, \<open>content\<close> the bytes the
  object stands for. Two objects with the same bytes can have different handles.
\<close>

record File =
  handle :: nat
  content :: string

definition same_object :: "File \<Rightarrow> File \<Rightarrow> bool" where
  "same_object a b = (handle a = handle b)"

datatype error = TypeError | TransferError string | TokenError string | FetchError string

text \<open>
  What a caller hands to \<^verbatim>\<open>uploadFiles\<close> (the input file and its display name), and the
  entry \<^verbatim>\<open>FileProgress\<close> that the progress hook keeps for it.
\<close>

record FileRequest =
  inputFile :: File
  name :: string

record FileProgress = FileRequest +
  status :: STATUS
  uploaded :: nat
  errorDetail :: "error option"

definition ident :: "FileProgress \<Rightarrow> nat" where
  "ident e = handle (inputFile e)"

definition terminal :: "STATUS \<Rightarrow> bool" where
  "terminal st = (st = COMPLETED \<or> st = FAILED)"

text \<open>
  The argument of \<^verbatim>\<open>initialize\<close> is one JavaScript array that holds entries already
  tracked (\<^verbatim>\<open>Object.values(progress.files)\<close>) and, after \<^verbatim>\<open>concat\<close>, the files newly
  handed in.
\<close>

datatype item = Tracked FileProgress | Fresh FileRequest

text \<open>
  The transfer client of the \<^verbatim>\<open>web3.storage\<close> package, built from the token; its endpoint
  is the constant \<^verbatim>\<open>new URL(API)\<close>, the same for every instance.
\<close>

datatype Web3Storage = Web3Storage string

text \<open>One page of the listing that \<^verbatim>\<open>getUploads\<close> of \<^verbatim>\<open>lib/api\<close> resolves to:
  \<^verbatim>\<open>results\<close> and \<^verbatim>\<open>meta.count\<close>; a count that is missing is \<open>None\<close>.\<close>

type_synonym Upload = string

record Page =
  results :: "Upload list"
  count :: "int option"

text \<open>The arguments of a listing request (\<^verbatim>\<open>size\<close>, \<^verbatim>\<open>sortBy\<close>, \<^verbatim>\<open>page\<close>, \<^verbatim>\<open>sortOrder\<close>);
  a key that is absent is \<open>None\<close>.\<close>

record UploadArgs =
  size' :: "nat option"
  sortBy :: "string option"
  page :: "nat option"
  sortOrder :: "string option"

text \<open>An entry of the pinning service's listing, as \<^verbatim>\<open>listPins\<close> of \<^verbatim>\<open>lib/api\<close> gives it.\<close>

type_synonym PinStatus = string

text \<open>
  Calls that the provider makes to its collaborators, in the order it makes them: the
  storage client, the token source, the account listing (\<^verbatim>\<open>refetch\<close>), the console and
  the operations of the progress hook.
\<close>

datatype call =
    GetToken
  | NewWeb3Storage string
  | Put Web3Storage File string
  | UpdateFileProgress nat nat
  | MarkFileCompleted nat
  | MarkFileFailed nat error
  | ConsoleError error
  | Refetch
  | GetUploadsRequest UploadArgs
  | ListPinsRequest string string

text \<open>
  The state: the module variable \<^verbatim>\<open>client\<close>, the hook's \<^verbatim>\<open>progress.files\<close> (its values, in
  order), the \<^verbatim>\<open>useState\<close> cells of the provider, the per-file handlers suspended at
  \<^verbatim>\<open>await client.put\<close>, the files whose \<^verbatim>\<open>onStoredChunk\<close> callback was handed to
  \<^verbatim>\<open>client.put\<close> (the client may call it at any later time), the \<^verbatim>\<open>uploadFiles\<close> invocations suspended at
  \<^verbatim>\<open>await getToken()\<close> (each with the \<^verbatim>\<open>progress.files\<close> of its closure and its argument),
  and the calls made so far.
\<close>

record state =
  client :: "Web3Storage option"
  files :: "FileProgress list"
  filesToUpload :: "FileProgress list"
  uploads :: "Upload list"
  totalUploads :: int
  pinned :: "PinStatus list"
  isFetchingUploads :: bool
  fetchDate :: "nat option"
  isFetchingPinned :: bool
  fetchPinsDate :: "nat option"
  awaitingPut :: "FileProgress list"
  putCallbacks :: "FileProgress list"
  awaitingToken :: "(FileProgress list \<times> FileRequest list) list"
  calls :: "call list"

definition initial :: state where
  "initial = \<lparr> client = None, files = [], filesToUpload = [], uploads = [],
     totalUploads = 0, pinned = [], isFetchingUploads = False, fetchDate = None,
     isFetchingPinned = False, fetchPinsDate = None,
     awaitingPut = [], putCallbacks = [], awaitingToken = [], calls = [] \<rparr>"

section \<open>The progress hook\<close>

text \<open>
  The provider imports the hook \<^verbatim>\<open>useUploadProgress\<close> from \<^verbatim>\<open>./uploadProgressContext\<close>
  and uses its \<^verbatim>\<open>progress.files\<close>, \<^verbatim>\<open>initialize\<close>, \<^verbatim>\<open>updateFileProgress\<close>,
  \<^verbatim>\<open>markFileCompleted\<close> and \<^verbatim>\<open>markFileFailed\<close>. That module is not among the source
  files, so the definitions of this section follow the operations of the spec
  (\<^verbatim>\<open>submit\<close>, \<^verbatim>\<open>reportProgress\<close>, \<^verbatim>\<open>reportCompleted\<close>, \<^verbatim>\<open>reportFailed\<close>). The hook
  operations find an entry by the identity of its input file.
\<close>

text \<open>
  Modelled from the spec: the entry the hook makes for a file it has not seen (missing:
  \<^verbatim>\<open>initialize\<close> of \<^verbatim>\<open>uploadProgressContext\<close>). "Initial state: \<^verbatim>\<open>pending\<close>"; no bytes
  transferred, no error detail.
\<close>

definition pendingEntry :: "FileRequest \<Rightarrow> FileProgress" where
  "pendingEntry r = \<lparr> inputFile = inputFile r, name = name r,
     status = PENDING, uploaded = 0, errorDetail = None \<rparr>"

text \<open>
  Modelled from the spec: how \<^verbatim>\<open>initialize\<close> reads one element of its argument (missing:
  \<^verbatim>\<open>initialize\<close> of \<^verbatim>\<open>uploadProgressContext\<close>). An entry that is already tracked is taken
  as it is, "re-submission of an already-tracked identity is a no-op for that identity";
  a new file gets "a new \<^verbatim>\<open>pending\<close> entry".
\<close>

fun entry_of :: "item \<Rightarrow> FileProgress" where
  "entry_of (Tracked e) = e"
| "entry_of (Fresh r) = pendingEntry r"

text \<open>
  Modelled from the spec: the constraint "no two entries share the same file identity"
  (missing: \<^verbatim>\<open>initialize\<close> of \<^verbatim>\<open>uploadProgressContext\<close>). Of the elements with one
  identity the first is kept; \<open>seen\<close> holds the identities kept so far.
\<close>

fun keep_first :: "nat set \<Rightarrow> FileProgress list \<Rightarrow> FileProgress list" where
  "keep_first seen [] = []"
| "keep_first seen (e # es) =
     (if ident e \<in> seen then keep_first seen es
      else e # keep_first (insert (ident e) seen) es)"

text \<open>
  Modelled from the spec: \<^verbatim>\<open>initialize\<close> of \<^verbatim>\<open>uploadProgressContext\<close>, the spec's
  \<^verbatim>\<open>submit\<close>. It "accepts the full current list of desired files-to-track (not a delta)"
  and "initializes a new \<^verbatim>\<open>pending\<close> entry for each identity not already present": the
  tracked list becomes the list given, one entry per identity.
\<close>

definition initialize :: "item list \<Rightarrow> FileProgress list" where
  "initialize items = keep_first {} (map entry_of items)"

text \<open>
  Modelled from the spec: \<^verbatim>\<open>updateFileProgress\<close> of \<^verbatim>\<open>uploadProgressContext\<close>, the spec's
  \<^verbatim>\<open>reportProgress\<close>. It sets the byte counter of the entry of the file's identity and
  leaves a terminal entry and every other identity alone. The spec has an entry become
  \<^verbatim>\<open>uploading\<close> "when transfer begins"; the provider makes no call to the hook at that
  moment, so here the first progress report is what turns a \<^verbatim>\<open>pending\<close> entry to
  \<^verbatim>\<open>uploading\<close>.
\<close>

definition updateFileProgress :: "FileProgress \<Rightarrow> nat \<Rightarrow> FileProgress list \<Rightarrow> FileProgress list" where
  "updateFileProgress file bytes fs =
     map (\<lambda>e. if ident e = ident file \<and> \<not> terminal (status e)
               then e\<lparr> status := UPLOADING, uploaded := bytes \<rparr> else e) fs"

text \<open>
  Modelled from the spec: \<^verbatim>\<open>markFileCompleted\<close> of \<^verbatim>\<open>uploadProgressContext\<close>, the spec's
  \<^verbatim>\<open>reportCompleted\<close>: it "transitions the entry to \<^verbatim>\<open>completed\<close>" and "fails silently
  if the identity has no entry or is already terminal".
\<close>

definition markFileCompleted :: "FileProgress \<Rightarrow> FileProgress list \<Rightarrow> FileProgress list" where
  "markFileCompleted file fs =
     map (\<lambda>e. if ident e = ident file \<and> \<not> terminal (status e)
               then e\<lparr> status := COMPLETED \<rparr> else e) fs"

text \<open>
  Modelled from the spec: \<^verbatim>\<open>markFileFailed\<close> of \<^verbatim>\<open>uploadProgressContext\<close>, the spec's
  \<^verbatim>\<open>reportFailed\<close>: it "transitions the entry to \<^verbatim>\<open>failed\<close>, recording the error", and
  "once an entry reaches \<^verbatim>\<open>completed\<close> or \<^verbatim>\<open>failed\<close>, no further transition is possible".
\<close>

definition markFileFailed :: "FileProgress \<Rightarrow> error \<Rightarrow> FileProgress list \<Rightarrow> FileProgress list" where
  "markFileFailed file err fs =
     map (\<lambda>e. if ident e = ident file \<and> \<not> terminal (status e)
               then e\<lparr> status := FAILED, errorDetail := Some err \<rparr> else e) fs"

section \<open>The provider\<close>

subsection \<open>\<^verbatim>\<open>uploadFiles\<close>\<close>

text \<open>
  \<^verbatim>\<open>client = client || new Web3Storage({ token: await getToken(), ... })\<close> reads
  \<^verbatim>\<open>client\<close> first. When it is set nothing is awaited and the invocation runs through
  \<^verbatim>\<open>initialize\<close> at once. When it is not set the invocation asks for the token and is
  suspended; \<open>uploadFiles_resume\<close> is its continuation when the token promise settles: a
  rejection is thrown to the caller, a token builds a client, assigns it and goes on to
  \<^verbatim>\<open>initialize\<close> with the \<^verbatim>\<open>progress.files\<close> of the invocation's closure.
\<close>

definition uploadFiles_call :: "FileRequest list \<Rightarrow> state \<Rightarrow> state" where
  "uploadFiles_call fs s =
     (case client s of
        Some c \<Rightarrow> s\<lparr> files := initialize (map Tracked (files s) @ map Fresh fs) \<rparr>
      | None \<Rightarrow> s\<lparr> awaitingToken := awaitingToken s @ [(files s, fs)],
                   calls := calls s @ [GetToken] \<rparr>)"

definition uploadFiles_resume :: "nat \<Rightarrow> error + string \<Rightarrow> state \<Rightarrow> (error + unit) \<times> state" where
  "uploadFiles_resume k tok s =
     (if k < length (awaitingToken s) then
        (let closure = awaitingToken s ! k;
             others = take k (awaitingToken s) @ drop (Suc k) (awaitingToken s)
         in case tok of
              Inl err \<Rightarrow> (Inl err, s\<lparr> awaitingToken := others \<rparr>)
            | Inr t \<Rightarrow>
                (Inr (), s\<lparr> awaitingToken := others,
                            client := Some (Web3Storage t),
                            files := initialize (map Tracked (fst closure) @ map Fresh (snd closure)),
                            calls := calls s @ [NewWeb3Storage t] \<rparr>))
      else (Inr (), s))"

text \<open>An invocation whose token promise settles before anything else happens.\<close>

definition uploadFiles :: "FileRequest list \<Rightarrow> error + string \<Rightarrow> state \<Rightarrow> (error + unit) \<times> state" where
  "uploadFiles fs tok s =
     (case client s of
        Some c \<Rightarrow> (Inr (), uploadFiles_call fs s)
      | None \<Rightarrow> uploadFiles_resume (length (awaitingToken s)) tok (uploadFiles_call fs s))"

subsection \<open>\<^verbatim>\<open>clearUploadedFiles\<close>\<close>

text \<open>
  The returned boolean is computed from \<^verbatim>\<open>progress.files\<close> of the callback's closure, the
  value the list had when \<^verbatim>\<open>initialize\<close> was called.
\<close>

definition clearUploadedFiles :: "state \<Rightarrow> bool \<times> state" where
  "clearUploadedFiles s =
     (files s \<noteq> [],
      s\<lparr> files := initialize (map Tracked (filter (\<lambda>e. status e \<noteq> COMPLETED) (files s))) \<rparr>)"

subsection \<open>The upload effect\<close>

definition newFilesToUpload :: "FileProgress list \<Rightarrow> FileProgress list \<Rightarrow> FileProgress list" where
  "newFilesToUpload progressFiles tracked =
     filter (\<lambda>e. find (\<lambda>t. same_object (inputFile t) (inputFile e)) tracked = None) progressFiles"

text \<open>The three ways a per-file handler goes on: a stored chunk, the \<^verbatim>\<open>catch\<close> branch, and
  the statements after the \<^verbatim>\<open>try\<close>.\<close>

definition onStoredChunk :: "FileProgress \<Rightarrow> nat \<Rightarrow> state \<Rightarrow> state" where
  "onStoredChunk file bytes s =
     s\<lparr> files := updateFileProgress file bytes (files s),
        calls := calls s @ [UpdateFileProgress (ident file) bytes] \<rparr>"

definition putFailed :: "FileProgress \<Rightarrow> error \<Rightarrow> state \<Rightarrow> (error + unit) \<times> state" where
  "putFailed file err s =
     (Inr (), s\<lparr> files := markFileFailed file err (files s),
                 calls := calls s @ [MarkFileFailed (ident file) err, ConsoleError err] \<rparr>)"

definition putSucceeded :: "FileProgress \<Rightarrow> state \<Rightarrow> (error + unit) \<times> state" where
  "putSucceeded file s =
     (Inr (), s\<lparr> files := markFileCompleted file (files s),
                 calls := calls s @ [MarkFileCompleted (ident file), Refetch] \<rparr>)"

text \<open>
  The start of a handler: \<^verbatim>\<open>client.put\<close> is called with the file and its
  \<^verbatim>\<open>onStoredChunk\<close> callback, and the handler is suspended. With no
  client the call throws a \<^verbatim>\<open>TypeError\<close> inside the \<^verbatim>\<open>try\<close>, which the \<^verbatim>\<open>catch\<close> handles.
\<close>

definition startUpload :: "FileProgress \<Rightarrow> state \<Rightarrow> state" where
  "startUpload file s =
     (case client s of
        None \<Rightarrow> snd (putFailed file TypeError s)
      | Some c \<Rightarrow> s\<lparr> awaitingPut := awaitingPut s @ [file],
                     putCallbacks := putCallbacks s @ [file],
                     calls := calls s @ [Put c (inputFile file) (name file)] \<rparr>)"

definition effect :: "state \<Rightarrow> state" where
  "effect s =
     (let new = newFilesToUpload (files s) (filesToUpload s)
      in if new \<noteq> [] then fold startUpload new (s\<lparr> filesToUpload := filesToUpload s @ new \<rparr>)
         else s)"

subsection \<open>\<^verbatim>\<open>getUploads\<close>\<close>

text \<open>
  \<^verbatim>\<open>uArgs\<close> is the default arguments overridden by the keys of \<^verbatim>\<open>args\<close> that are present.
  A rejected request leaves \<^verbatim>\<open>isFetchingUploads\<close> set and is thrown to the caller.
  \<^verbatim>\<open>if (updatedUploads.meta.count)\<close> holds for a count that is there and is not zero.
\<close>

definition uArgs :: "UploadArgs option \<Rightarrow> UploadArgs" where
  "uArgs args =
     (let given = (case args of None \<Rightarrow> \<lparr> size' = None, sortBy = None, page = None, sortOrder = None \<rparr>
                   | Some a \<Rightarrow> a)
      in \<lparr> size' = Some (case size' given of None \<Rightarrow> 10 | Some n \<Rightarrow> n),
           sortBy = Some (case sortBy given of None \<Rightarrow> ''Date'' | Some f \<Rightarrow> f),
           page = Some (case page given of None \<Rightarrow> 0 | Some n \<Rightarrow> n),
           sortOrder = Some (case sortOrder given of None \<Rightarrow> ''Desc'' | Some f \<Rightarrow> f) \<rparr>)"

definition getUploadsCallback ::
    "UploadArgs option \<Rightarrow> error + Page \<Rightarrow> nat \<Rightarrow> state \<Rightarrow> (error + Upload list) \<times> state" where
  "getUploadsCallback args response now s =
     (case response of
        Inl err \<Rightarrow>
          (Inl err, s\<lparr> isFetchingUploads := True,
                      calls := calls s @ [GetUploadsRequest (uArgs args)] \<rparr>)
      | Inr updatedUploads \<Rightarrow>
          (Inr (results updatedUploads),
           s\<lparr> uploads := results updatedUploads,
              totalUploads := (case count updatedUploads of
                                 None \<Rightarrow> totalUploads s
                               | Some n \<Rightarrow> if n \<noteq> 0 then n else totalUploads s),
              fetchDate := Some now,
              isFetchingUploads := False,
              calls := calls s @ [GetUploadsRequest (uArgs args)] \<rparr>))"

subsection \<open>\<^verbatim>\<open>listPinned\<close>\<close>

text \<open>The response is \<^verbatim>\<open>pinsResponse.results\<close>, or the error the request was rejected with.\<close>

definition listPinnedCallback ::
    "string \<Rightarrow> string \<Rightarrow> error + PinStatus list \<Rightarrow> nat \<Rightarrow> state \<Rightarrow> (error + PinStatus list) \<times> state" where
  "listPinnedCallback st token response now s =
     (case response of
        Inl err \<Rightarrow>
          (Inl err, s\<lparr> isFetchingPinned := True,
                      calls := calls s @ [ListPinsRequest st token] \<rparr>)
      | Inr updatedPinned \<Rightarrow>
          (Inr updatedPinned,
           s\<lparr> pinned := updatedPinned,
              fetchPinsDate := Some now,
              isFetchingPinned := False,
              calls := calls s @ [ListPinsRequest st token] \<rparr>))"

subsection \<open>Events\<close>

text \<open>
  What can happen to a mounted provider: a call of one of its callbacks, or the storage
  client reporting on the transfer of the file with a given handle. After each of them the
  component renders again and the effect runs. A transfer resolves or rejects only while
  its handler is suspended at the \<^verbatim>\<open>await\<close>; the \<^verbatim>\<open>onStoredChunk\<close> callback has no such
  guard in the source, and a chunk reported for any file whose callback the client holds
  reaches \<^verbatim>\<open>updateFileProgress\<close>, also after the transfer has settled.
\<close>

datatype event =
    UploadFiles "FileRequest list" "error + string"
  | ClearUploadedFiles
  | StoredChunk nat nat
  | PutResolved nat
  | PutRejected nat error
  | GetUploads "UploadArgs option" "error + Page" nat
  | ListPinned string string "error + PinStatus list" nat

definition inFlight :: "nat \<Rightarrow> state \<Rightarrow> FileProgress option" where
  "inFlight i s = find (\<lambda>f. ident f = i) (awaitingPut s)"

definition callbackOf :: "nat \<Rightarrow> state \<Rightarrow> FileProgress option" where
  "callbackOf i s = find (\<lambda>f. ident f = i) (putCallbacks s)"

fun handle_event :: "event \<Rightarrow> state \<Rightarrow> state" where
  "handle_event (UploadFiles fs tok) s = snd (uploadFiles fs tok s)"
| "handle_event ClearUploadedFiles s = snd (clearUploadedFiles s)"
| "handle_event (StoredChunk i bytes) s =
     (case callbackOf i s of None \<Rightarrow> s | Some file \<Rightarrow> onStoredChunk file bytes s)"
| "handle_event (PutResolved i) s =
     (case inFlight i s of None \<Rightarrow> s
      | Some file \<Rightarrow> snd (putSucceeded file (s\<lparr> awaitingPut := remove1 file (awaitingPut s) \<rparr>)))"
| "handle_event (PutRejected i err) s =
     (case inFlight i s of None \<Rightarrow> s
      | Some file \<Rightarrow> snd (putFailed file err (s\<lparr> awaitingPut := remove1 file (awaitingPut s) \<rparr>)))"
| "handle_event (GetUploads args response now) s = snd (getUploadsCallback args response now s)"
| "handle_event (ListPinned st token response now) s = snd (listPinnedCallback st token response now s)"

definition step :: "event \<Rightarrow> state \<Rightarrow> state" where
  "step e s = effect (handle_event e s)"

text \<open>
  An \<^verbatim>\<open>uploadFiles\<close> invocation and the settling of its token promise are two actions, so
  that other actions can fall between them; \<open>Atomic\<close> is an event handled to its end, for
  \<^verbatim>\<open>uploadFiles\<close> an invocation whose token promise settles before anything else happens.
  A callback that is called reads the \<^verbatim>\<open>progress.files\<close> of the latest render; only the
  continuation of a suspended \<^verbatim>\<open>uploadFiles\<close> reads an older list, that of its closure.
\<close>

datatype action =
    Atomic event
  | UploadFilesCalled "FileRequest list"
  | TokenSettled nat "error + string"

fun act :: "action \<Rightarrow> state \<Rightarrow> state" where
  "act (Atomic e) s = step e s"
| "act (UploadFilesCalled fs) s = effect (uploadFiles_call fs s)"
| "act (TokenSettled k tok) s = effect (snd (uploadFiles_resume k tok s))"

fun run_actions :: "action list \<Rightarrow> state \<Rightarrow> state" where
  "run_actions [] s = s"
| "run_actions (a # as) s = run_actions as (act a s)"

text \<open>
  \<open>run es\<close> is short for the run of the actions in which every event of \<open>es\<close> is handled
  to its end before the next: no \<^verbatim>\<open>uploadFiles\<close> invocation is left waiting for its token
  while something else happens.
\<close>

abbreviation run :: "event list \<Rightarrow> state \<Rightarrow> state" where
  "run es s \<equiv> run_actions (map Atomic es) s"

section \<open>Observations on the calls made\<close>

text \<open>
  The handles for which \<^verbatim>\<open>client.put\<close> was called, the handles for which
  \<^verbatim>\<open>markFileCompleted\<close> was called, the number of \<^verbatim>\<open>refetch\<close> calls, and the number of
  clients built, each read off the list of calls in order.
\<close>

fun put_handles :: "call list \<Rightarrow> nat list" where
  "put_handles [] = []"
| "put_handles (Put c f n # cs) = handle f # put_handles cs"
| "put_handles (_ # cs) = put_handles cs"

fun completed_handles :: "call list \<Rightarrow> nat list" where
  "completed_handles [] = []"
| "completed_handles (MarkFileCompleted i # cs) = i # completed_handles cs"
| "completed_handles (_ # cs) = completed_handles cs"

fun refetches :: "call list \<Rightarrow> nat" where
  "refetches [] = 0"
| "refetches (Refetch # cs) = Suc (refetches cs)"
| "refetches (_ # cs) = refetches cs"

definition constructions :: "call list \<Rightarrow> nat" where
  "constructions cs = length (filter (\<lambda>c. case c of NewWeb3Storage t \<Rightarrow> True | _ \<Rightarrow> False) cs)"

text \<open>
  \<open>refetch_ok\<close> holds of a list of calls when every \<^verbatim>\<open>markFileCompleted\<close> in it is followed
  at once by a \<^verbatim>\<open>refetch\<close> and no \<^verbatim>\<open>refetch\<close> stands anywhere else.
\<close>

fun refetch_ok :: "call list \<Rightarrow> bool" where
  "refetch_ok [] = True"
| "refetch_ok (MarkFileCompleted i # Refetch # cs) = refetch_ok cs"
| "refetch_ok (MarkFileCompleted i # cs) = False"
| "refetch_ok (Refetch # cs) = False"
| "refetch_ok (_ # cs) = refetch_ok cs"

section \<open>Invariants\<close>

text \<open>
  \<open>consistent\<close> holds between a handler and the effect that follows it; \<open>settled\<close> adds
  that the effect has seen every entry of \<^verbatim>\<open>progress.files\<close>. Both hold however
  \<^verbatim>\<open>uploadFiles\<close> invocations overlap. \<open>inflight_ok\<close> (every transfer in flight has an entry
  that is not terminal) holds when each invocation runs to its end before the next event;
  \<open>fresh_ok\<close> is what the effect needs to keep it. \<open>single_client\<close> relates the number of
  clients built to the module variable.
\<close>

definition consistent :: "state \<Rightarrow> bool" where
  "consistent s =
     (distinct (map ident (files s)) \<and>
      distinct (map ident (filesToUpload s)) \<and>
      (files s = [] \<or> client s \<noteq> None) \<and>
      put_handles (calls s) = map ident (filesToUpload s) \<and>
      distinct (map ident (awaitingPut s)) \<and>
      distinct (completed_handles (calls s)) \<and>
      ident ` set (awaitingPut s) \<inter> set (completed_handles (calls s)) = {} \<and>
      ident ` set (awaitingPut s) \<subseteq> ident ` set (filesToUpload s) \<and>
      set (completed_handles (calls s)) \<subseteq> ident ` set (filesToUpload s) \<and>
      refetch_ok (calls s) \<and>
      refetches (calls s) = length (completed_handles (calls s)))"

definition settled :: "state \<Rightarrow> bool" where
  "settled s = (consistent s \<and> ident ` set (files s) \<subseteq> ident ` set (filesToUpload s))"

definition inflight_ok :: "state \<Rightarrow> bool" where
  "inflight_ok s =
     (\<forall>f\<in>set (awaitingPut s). \<exists>e\<in>set (files s). ident e = ident f \<and> \<not> terminal (status e))"

definition fresh_ok :: "state \<Rightarrow> bool" where
  "fresh_ok s =
     (\<forall>e\<in>set (files s). ident e \<in> ident ` set (filesToUpload s) \<or> status e = PENDING)"

definition tracking :: "state \<Rightarrow> bool" where
  "tracking s = (settled s \<and> inflight_ok s)"

definition single_client :: "state \<Rightarrow> bool" where
  "single_client s = (constructions (calls s) = (case client s of None \<Rightarrow> 0 | Some c \<Rightarrow> 1))"

section \<open>Two files\<close>

text \<open>Two file objects with the same bytes and the same display name, and different handles.\<close>

definition fileA :: FileRequest where
  "fileA = \<lparr> inputFile = \<lparr> handle = 1, content = ''aaa'' \<rparr>, name = ''a.txt'' \<rparr>"

definition fileB :: FileRequest where
  "fileB = \<lparr> inputFile = \<lparr> handle = 2, content = ''aaa'' \<rparr>, name = ''a.txt'' \<rparr>"

section \<open>Lemmas on the hook and the effect\<close>

subsection \<open>The hook keeps one entry per identity\<close>

lemma ident_upd [simp]:
  "ident (e\<lparr> status := st \<rparr>) = ident e"
  "ident (e\<lparr> uploaded := n \<rparr>) = ident e"
  "ident (e\<lparr> errorDetail := d \<rparr>) = ident e"
  by (simp_all add: ident_def)

lemma keep_first_subset: "set (keep_first S xs) \<subseteq> set xs"
  by (induction xs arbitrary: S) auto

lemma keep_first_idents: "ident ` set (keep_first S xs) = ident ` set xs - S"
  by (induction xs arbitrary: S) auto

lemma keep_first_distinct: "distinct (map ident (keep_first S xs))"
  by (induction xs arbitrary: S) (auto simp: keep_first_idents)

lemma keep_first_append:
  "distinct (map ident xs) \<Longrightarrow> ident ` set xs \<inter> S = {} \<Longrightarrow>
   keep_first S (xs @ ys) = xs @ keep_first (S \<union> ident ` set xs) ys"
proof (induction xs arbitrary: S)
  case Nil
  then show ?case by simp
next
  case (Cons x xs)
  have a: "ident x \<notin> S" using Cons.prems(2) by auto
  have b: "ident ` set xs \<inter> insert (ident x) S = {}" using Cons.prems by auto
  have c: "distinct (map ident xs)" using Cons.prems(1) by simp
  have d: "insert (ident x) S \<union> ident ` set xs = S \<union> ident ` set (x # xs)" by auto
  show ?case using Cons.IH [OF c b] a d by simp
qed

lemma keep_first_same:
  "distinct (map ident xs) \<Longrightarrow> ident ` set xs \<inter> S = {} \<Longrightarrow> keep_first S xs = xs"
  using keep_first_append [of xs S "[]"] by simp

lemma initialize_tracked:
  "distinct (map ident xs) \<Longrightarrow> initialize (map Tracked xs) = xs"
  by (simp add: initialize_def comp_def keep_first_same)

lemma initialize_concat:
  "distinct (map ident xs) \<Longrightarrow>
   initialize (map Tracked xs @ map Fresh rs) = xs @ keep_first (ident ` set xs) (map pendingEntry rs)"
  by (simp add: initialize_def comp_def keep_first_append)

lemma initialize_distinct: "distinct (map ident (initialize items))"
  by (simp add: initialize_def keep_first_distinct)

subsection \<open>The effect\<close>

lemma newFilesToUpload_eq:
  "newFilesToUpload fs tr = filter (\<lambda>e. ident e \<notin> ident ` set tr) fs"
  unfolding newFilesToUpload_def
  by (rule filter_cong) (auto simp: find_None_iff same_object_def ident_def image_iff)

lemma fold_startUpload:
  "client s = Some c \<Longrightarrow>
   fold startUpload new s =
     s\<lparr> awaitingPut := awaitingPut s @ new,
        putCallbacks := putCallbacks s @ new,
        calls := calls s @ map (\<lambda>f. Put c (inputFile f) (name f)) new \<rparr>"
  by (induction new arbitrary: s) (simp_all add: startUpload_def)

lemma put_handles_append [simp]: "put_handles (xs @ ys) = put_handles xs @ put_handles ys"
  by (induction xs rule: put_handles.induct) simp_all

lemma completed_handles_append [simp]:
  "completed_handles (xs @ ys) = completed_handles xs @ completed_handles ys"
  by (induction xs rule: completed_handles.induct) simp_all

lemma refetches_append [simp]: "refetches (xs @ ys) = refetches xs + refetches ys"
  by (induction xs rule: refetches.induct) simp_all

lemma refetch_ok_append: "refetch_ok xs \<Longrightarrow> refetch_ok ys \<Longrightarrow> refetch_ok (xs @ ys)"
  by (induction xs rule: refetch_ok.induct) simp_all

lemma put_handles_puts [simp]:
  "put_handles (map (\<lambda>f. Put c (inputFile f) (name f)) new) = map ident new"
  by (induction new) (simp_all add: ident_def)

lemma completed_handles_puts [simp]:
  "completed_handles (map (\<lambda>f. Put c (inputFile f) (name f)) new) = []"
  by (induction new) simp_all

lemma refetches_puts [simp]:
  "refetches (map (\<lambda>f. Put c (inputFile f) (name f)) new) = 0"
  by (induction new) simp_all

lemma refetch_ok_puts [simp]:
  "refetch_ok (map (\<lambda>f. Put c (inputFile f) (name f)) new)"
  by (induction new) simp_all

lemma effect_eq_Some:
  "client s = Some c \<Longrightarrow>
   effect s = s\<lparr> filesToUpload := filesToUpload s @ newFilesToUpload (files s) (filesToUpload s),
                 awaitingPut := awaitingPut s @ newFilesToUpload (files s) (filesToUpload s),
                 putCallbacks := putCallbacks s @ newFilesToUpload (files s) (filesToUpload s),
                 calls := calls s @ map (\<lambda>f. Put c (inputFile f) (name f))
                            (newFilesToUpload (files s) (filesToUpload s)) \<rparr>"
  by (simp add: effect_def Let_def fold_startUpload)

lemma effect_eq_Nil: "files s = [] \<Longrightarrow> effect s = s"
  by (simp add: effect_def Let_def newFilesToUpload_def)

lemma effect_settled: "consistent s \<Longrightarrow> settled (effect s)"
proof (cases "client s")
  case None
  assume "consistent s"
  with None have "files s = []" by (simp add: consistent_def)
  with \<open>consistent s\<close> show ?thesis by (simp add: effect_eq_Nil settled_def)
next
  case (Some c)
  assume p: "consistent s"
  let ?new = "newFilesToUpload (files s) (filesToUpload s)"
  have n1: "distinct (map ident ?new)"
    using p by (simp add: consistent_def newFilesToUpload_eq distinct_map_filter)
  have n2: "ident ` set ?new \<inter> ident ` set (filesToUpload s) = {}"
    by (auto simp: newFilesToUpload_eq)
  have n3: "ident ` set (files s) \<subseteq> ident ` set (filesToUpload s) \<union> ident ` set ?new"
    by (auto simp: newFilesToUpload_eq)
  show ?thesis
    unfolding settled_def consistent_def effect_eq_Some [OF Some]
    using p n1 n2 n3 Some
    by (simp add: consistent_def refetch_ok_append image_Un) blast
qed

subsection \<open>Every handler and the effect keep the state consistent\<close>

lemma ident_hook [simp]:
  "map ident (updateFileProgress f n fs) = map ident fs"
  "map ident (markFileCompleted f fs) = map ident fs"
  "map ident (markFileFailed f err fs) = map ident fs"
  by (simp_all add: updateFileProgress_def markFileCompleted_def markFileFailed_def)

lemma hook_Nil [simp]:
  "updateFileProgress f n fs = [] \<longleftrightarrow> fs = []"
  "markFileCompleted f fs = [] \<longleftrightarrow> fs = []"
  "markFileFailed f err fs = [] \<longleftrightarrow> fs = []"
  by (simp_all add: updateFileProgress_def markFileCompleted_def markFileFailed_def)

lemma initialize_Nil [simp]: "initialize [] = []"
  by (simp add: initialize_def)

lemma consistent_files:
  "consistent s \<Longrightarrow> distinct (map ident fs) \<Longrightarrow> fs = [] \<or> client s \<noteq> None \<Longrightarrow>
   consistent (s\<lparr> files := fs \<rparr>)"
  by (simp add: consistent_def)

lemma uploadFiles_call_consistent: "consistent s \<Longrightarrow> consistent (uploadFiles_call fs s)"
  by (cases "client s")
     (simp_all add: uploadFiles_call_def consistent_def initialize_distinct refetch_ok_append)

lemma uploadFiles_resume_consistent: "consistent s \<Longrightarrow> consistent (snd (uploadFiles_resume k tok s))"
  by (cases tok)
     (simp_all add: uploadFiles_resume_def Let_def consistent_def initialize_distinct refetch_ok_append)

lemma uploadFiles_consistent: "consistent s \<Longrightarrow> consistent (snd (uploadFiles fs tok s))"
  by (cases "client s") (simp_all add: uploadFiles_def uploadFiles_call_consistent uploadFiles_resume_consistent)

lemma clearUploadedFiles_consistent: "consistent s \<Longrightarrow> consistent (snd (clearUploadedFiles s))"
  unfolding clearUploadedFiles_def snd_conv
  by (rule consistent_files) (auto simp: initialize_distinct consistent_def)

lemma onStoredChunk_consistent: "consistent s \<Longrightarrow> consistent (onStoredChunk file n s)"
  by (simp add: onStoredChunk_def consistent_def refetch_ok_append)

lemma inFlight_Some: "inFlight i s = Some file \<Longrightarrow> file \<in> set (awaitingPut s) \<and> ident file = i"
  by (auto simp: inFlight_def find_Some_iff)

lemma remove1_idents:
  "distinct (map ident xs) \<Longrightarrow> f \<in> set xs \<Longrightarrow>
   distinct (map ident (remove1 f xs)) \<and> ident f \<notin> ident ` set (remove1 f xs) \<and>
   ident ` set (remove1 f xs) \<subseteq> ident ` set xs"
proof (induction xs)
  case Nil
  then show ?case by simp
next
  case (Cons x xs)
  then show ?case by (cases "x = f") (auto simp: image_iff)
qed

lemma putSucceeded_consistent:
  assumes p: "consistent s" and f: "inFlight i s = Some file"
  shows "consistent (snd (putSucceeded file (s\<lparr> awaitingPut := remove1 file (awaitingPut s) \<rparr>)))"
proof -
  have m: "file \<in> set (awaitingPut s)" using inFlight_Some [OF f] by simp
  have d: "distinct (map ident (awaitingPut s))" using p by (simp add: consistent_def)
  note r = remove1_idents [OF d m]
  have a: "ident file \<notin> set (completed_handles (calls s))"
    using p m by (auto simp: consistent_def)
  have b: "ident file \<in> ident ` set (filesToUpload s)"
    using p m by (auto simp: consistent_def)
  show ?thesis
    using p r a b
    by (simp add: putSucceeded_def consistent_def refetch_ok_append) blast
qed

lemma putFailed_consistent:
  assumes p: "consistent s" and f: "inFlight i s = Some file"
  shows "consistent (snd (putFailed file err (s\<lparr> awaitingPut := remove1 file (awaitingPut s) \<rparr>)))"
proof -
  have m: "file \<in> set (awaitingPut s)" using inFlight_Some [OF f] by simp
  have d: "distinct (map ident (awaitingPut s))" using p by (simp add: consistent_def)
  note r = remove1_idents [OF d m]
  show ?thesis
    using p r
    by (simp add: putFailed_def consistent_def refetch_ok_append) blast
qed

lemma listPinnedCallback_consistent:
  "consistent s \<Longrightarrow> consistent (snd (listPinnedCallback st token response now s))"
  by (cases response) (simp_all add: listPinnedCallback_def consistent_def refetch_ok_append)

lemma getUploadsCallback_consistent:
  "consistent s \<Longrightarrow> consistent (snd (getUploadsCallback args response now s))"
  by (cases response) (simp_all add: getUploadsCallback_def consistent_def refetch_ok_append)

lemma handle_event_consistent: "consistent s \<Longrightarrow> consistent (handle_event e s)"
proof (cases e)
  case (StoredChunk i n)
  assume "consistent s"
  then show ?thesis using StoredChunk by (cases "callbackOf i s") (simp_all add: onStoredChunk_consistent)
next
  case (PutResolved i)
  assume "consistent s"
  then show ?thesis using PutResolved by (cases "inFlight i s") (simp_all add: putSucceeded_consistent)
next
  case (PutRejected i err)
  assume "consistent s"
  then show ?thesis using PutRejected by (cases "inFlight i s") (simp_all add: putFailed_consistent)
qed (simp_all add: uploadFiles_consistent clearUploadedFiles_consistent getUploadsCallback_consistent
    listPinnedCallback_consistent)

lemma step_settled: "settled s \<Longrightarrow> settled (step e s)"
  unfolding step_def by (rule effect_settled) (simp add: handle_event_consistent settled_def)

lemma act_settled: "settled s \<Longrightarrow> settled (act a s)"
proof (cases a)
  case (Atomic e)
  assume "settled s"
  then show ?thesis using Atomic by (simp add: step_settled)
next
  case (UploadFilesCalled fs)
  assume "settled s"
  then have "consistent (uploadFiles_call fs s)" by (simp add: settled_def uploadFiles_call_consistent)
  then show ?thesis using UploadFilesCalled by (simp add: effect_settled)
next
  case (TokenSettled k tok)
  assume "settled s"
  then have "consistent (snd (uploadFiles_resume k tok s))" by (simp add: settled_def uploadFiles_resume_consistent)
  then show ?thesis using TokenSettled by (simp add: effect_settled)
qed

lemma settled_initial: "settled initial"
  by (simp add: settled_def consistent_def initial_def)

lemma run_actions_settled: "settled s \<Longrightarrow> settled (run_actions as s)"
  by (induction as arbitrary: s) (simp_all add: act_settled)

lemma run_settled: "settled s \<Longrightarrow> settled (run es s)"
  by (induction es arbitrary: s) (simp_all add: step_settled)

subsection \<open>Every transfer in flight has an entry that is not terminal\<close>

lemma fresh_ok_sub:
  "ident ` set (files s) \<subseteq> ident ` set (filesToUpload s) \<Longrightarrow> fresh_ok s"
  unfolding fresh_ok_def by blast

lemma effect_inflight:
  assumes p: "consistent s" and i: "inflight_ok s" and f: "fresh_ok s"
  shows "inflight_ok (effect s)"
proof (cases "client s")
  case None
  with p have "files s = []" by (simp add: consistent_def)
  with i show ?thesis by (simp add: effect_eq_Nil)
next
  case (Some c)
  have "\<forall>e\<in>set (newFilesToUpload (files s) (filesToUpload s)).
          e \<in> set (files s) \<and> \<not> terminal (status e)"
    using f by (auto simp: newFilesToUpload_eq fresh_ok_def terminal_def)
  then show ?thesis
    using i unfolding effect_eq_Some [OF Some] inflight_ok_def by auto
qed

lemma uploadFiles_files:
  "distinct (map ident (files s)) \<Longrightarrow>
   files (snd (uploadFiles fs tok s)) = files s \<or>
   files (snd (uploadFiles fs tok s)) =
     files s @ keep_first (ident ` set (files s)) (map pendingEntry fs)"
  by (cases "client s"; cases tok)
     (simp_all add: uploadFiles_def uploadFiles_call_def uploadFiles_resume_def Let_def
        initialize_concat)

lemma uploadFiles_other:
  "awaitingPut (snd (uploadFiles fs tok s)) = awaitingPut s"
  "filesToUpload (snd (uploadFiles fs tok s)) = filesToUpload s"
  by (cases "client s"; cases tok;
      simp add: uploadFiles_def uploadFiles_call_def uploadFiles_resume_def Let_def)+

lemma pending_keep_first:
  "e \<in> set (keep_first S (map pendingEntry fs)) \<Longrightarrow> status e = PENDING"
  using keep_first_subset [of S "map pendingEntry fs"] by (auto simp: pendingEntry_def)

lemma uploadFiles_ok:
  assumes v: "settled s" and i: "inflight_ok s"
  shows "inflight_ok (snd (uploadFiles fs tok s)) \<and> fresh_ok (snd (uploadFiles fs tok s))"
proof -
  have d: "distinct (map ident (files s))" using v by (simp add: settled_def consistent_def)
  have sub: "ident ` set (files s) \<subseteq> ident ` set (filesToUpload s)" using v by (simp add: settled_def)
  from uploadFiles_files [OF d, of fs tok] show ?thesis
  proof
    assume "files (snd (uploadFiles fs tok s)) = files s"
    then show ?thesis using i sub
      by (auto simp: inflight_ok_def fresh_ok_def uploadFiles_other)
  next
    assume "files (snd (uploadFiles fs tok s)) =
      files s @ keep_first (ident ` set (files s)) (map pendingEntry fs)"
    then show ?thesis using i sub
      by (auto simp: inflight_ok_def fresh_ok_def uploadFiles_other dest: pending_keep_first)
  qed
qed

lemma clearUploadedFiles_files:
  "distinct (map ident (files s)) \<Longrightarrow>
   files (snd (clearUploadedFiles s)) = filter (\<lambda>e. status e \<noteq> COMPLETED) (files s)"
  by (simp add: clearUploadedFiles_def initialize_tracked distinct_map_filter)

lemma clearUploadedFiles_ok:
  assumes v: "settled s" and i: "inflight_ok s"
  shows "inflight_ok (snd (clearUploadedFiles s)) \<and> fresh_ok (snd (clearUploadedFiles s))"
proof -
  have d: "distinct (map ident (files s))" using v by (simp add: settled_def consistent_def)
  have sub: "ident ` set (files s) \<subseteq> ident ` set (filesToUpload s)" using v by (simp add: settled_def)
  have o: "awaitingPut (snd (clearUploadedFiles s)) = awaitingPut s"
    "filesToUpload (snd (clearUploadedFiles s)) = filesToUpload s"
    by (simp_all add: clearUploadedFiles_def)
  show ?thesis using i sub
    unfolding inflight_ok_def fresh_ok_def o clearUploadedFiles_files [OF d]
    by (auto simp: terminal_def)
qed

lemma ident_set_hook [simp]:
  "ident ` set (updateFileProgress f n fs) = ident ` set fs"
  "ident ` set (markFileCompleted f fs) = ident ` set fs"
  "ident ` set (markFileFailed f err fs) = ident ` set fs"
  unfolding list.set_map [symmetric] by simp_all

lemma onStoredChunk_ok:
  assumes v: "settled s" and i: "inflight_ok s"
  shows "inflight_ok (onStoredChunk file n s) \<and> fresh_ok (onStoredChunk file n s)"
proof -
  have sub: "ident ` set (files s) \<subseteq> ident ` set (filesToUpload s)" using v by (simp add: settled_def)
  have a: "inflight_ok (onStoredChunk file n s)"
    unfolding inflight_ok_def
  proof
    fix f assume "f \<in> set (awaitingPut (onStoredChunk file n s))"
    then have "f \<in> set (awaitingPut s)" by (simp add: onStoredChunk_def)
    then obtain e where e: "e \<in> set (files s)" "ident e = ident f" "\<not> terminal (status e)"
      using i by (auto simp: inflight_ok_def)
    let ?e' = "if ident e = ident file \<and> \<not> terminal (status e)
               then e\<lparr> status := UPLOADING, uploaded := n \<rparr> else e"
    have "?e' \<in> set (files (onStoredChunk file n s))"
      using e(1) by (simp add: onStoredChunk_def updateFileProgress_def image_iff) blast
    moreover have "ident ?e' = ident f \<and> \<not> terminal (status ?e')"
      using e by (simp add: terminal_def)
    ultimately show "\<exists>e\<in>set (files (onStoredChunk file n s)). ident e = ident f \<and> \<not> terminal (status e)"
      by blast
  qed
  have "ident ` set (files (onStoredChunk file n s)) = ident ` set (files s)"
    by (simp add: onStoredChunk_def)
  then have b: "fresh_ok (onStoredChunk file n s)"
    using sub by (intro fresh_ok_sub) (simp add: onStoredChunk_def)
  show ?thesis using a b by simp
qed

lemma settle_inflight:
  assumes v: "settled s" and i: "inflight_ok s" and f: "inFlight j s = Some file"
    and fs': "files s' = map (\<lambda>e. if ident e = ident file \<and> \<not> terminal (status e) then upd e else e) (files s)"
    and aw: "awaitingPut s' = remove1 file (awaitingPut s)"
    and tr: "filesToUpload s' = filesToUpload s"
    and u: "\<And>e. ident (upd e) = ident e"
  shows "inflight_ok s' \<and> fresh_ok s'"
proof -
  have sub: "ident ` set (files s) \<subseteq> ident ` set (filesToUpload s)" using v by (simp add: settled_def)
  have m: "file \<in> set (awaitingPut s)" using inFlight_Some [OF f] by simp
  have d: "distinct (map ident (awaitingPut s))" using v by (simp add: settled_def consistent_def)
  note r = remove1_idents [OF d m]
  have a: "inflight_ok s'"
    unfolding inflight_ok_def
  proof
    fix g assume g: "g \<in> set (awaitingPut s')"
    then have g1: "g \<in> set (awaitingPut s)" using aw set_remove1_subset [of "file" "awaitingPut s"] by auto
    have g2: "ident g \<noteq> ident file" using g r aw by (metis imageI)
    obtain e where e: "e \<in> set (files s)" "ident e = ident g" "\<not> terminal (status e)"
      using i g1 by (auto simp: inflight_ok_def)
    have "e \<in> set (files s')" using e g2 fs' by (auto simp: image_iff intro!: bexI [of _ e])
    then show "\<exists>e\<in>set (files s'). ident e = ident g \<and> \<not> terminal (status e)"
      using e by blast
  qed
  have "map ident (files s') = map ident (files s)" using fs' u by simp
  then have "ident ` set (files s') = ident ` set (files s)" unfolding list.set_map [symmetric] by simp
  then have b: "fresh_ok s'" using sub tr by (intro fresh_ok_sub) simp
  show ?thesis using a b by simp
qed

lemma handle_event_ok:
  assumes v: "settled s" and i: "inflight_ok s"
  shows "inflight_ok (handle_event e s) \<and> fresh_ok (handle_event e s)"
proof (cases e)
  case (UploadFiles fs tok)
  then show ?thesis using uploadFiles_ok [OF v i] by simp
next
  case ClearUploadedFiles
  then show ?thesis using clearUploadedFiles_ok [OF v i] by simp
next
  case (StoredChunk j n)
  have sub: "ident ` set (files s) \<subseteq> ident ` set (filesToUpload s)" using v by (simp add: settled_def)
  show ?thesis using StoredChunk i onStoredChunk_ok [OF v i] fresh_ok_sub [OF sub]
    by (cases "callbackOf j s") simp_all
next
  case (PutResolved j)
  have sub: "ident ` set (files s) \<subseteq> ident ` set (filesToUpload s)" using v by (simp add: settled_def)
  show ?thesis
  proof (cases "inFlight j s")
    case None
    then show ?thesis using PutResolved i fresh_ok_sub [OF sub] by simp
  next
    case (Some fl)
    show ?thesis using PutResolved Some
      by (simp, intro settle_inflight [OF v i Some, where upd = "\<lambda>e. e\<lparr> status := COMPLETED \<rparr>"])
         (simp_all add: putSucceeded_def markFileCompleted_def)
  qed
next
  case (PutRejected j err)
  have sub: "ident ` set (files s) \<subseteq> ident ` set (filesToUpload s)" using v by (simp add: settled_def)
  show ?thesis
  proof (cases "inFlight j s")
    case None
    then show ?thesis using PutRejected i fresh_ok_sub [OF sub] by simp
  next
    case (Some fl)
    show ?thesis using PutRejected Some
      by (simp, intro settle_inflight [OF v i Some,
            where upd = "\<lambda>e. e\<lparr> status := FAILED, errorDetail := Some err \<rparr>"])
         (simp_all add: putFailed_def markFileFailed_def)
  qed
next
  case (GetUploads args response now)
  have sub: "ident ` set (files s) \<subseteq> ident ` set (filesToUpload s)" using v by (simp add: settled_def)
  have "files (snd (getUploadsCallback args response now s)) = files s"
    "filesToUpload (snd (getUploadsCallback args response now s)) = filesToUpload s"
    "awaitingPut (snd (getUploadsCallback args response now s)) = awaitingPut s"
    by (cases response; simp add: getUploadsCallback_def)+
  then show ?thesis using GetUploads i sub by (simp add: inflight_ok_def fresh_ok_def) blast
next
  case (ListPinned st token response now)
  have sub: "ident ` set (files s) \<subseteq> ident ` set (filesToUpload s)" using v by (simp add: settled_def)
  have "files (snd (listPinnedCallback st token response now s)) = files s"
    "filesToUpload (snd (listPinnedCallback st token response now s)) = filesToUpload s"
    "awaitingPut (snd (listPinnedCallback st token response now s)) = awaitingPut s"
    by (cases response; simp add: listPinnedCallback_def)+
  then show ?thesis using ListPinned i sub by (simp add: inflight_ok_def fresh_ok_def) blast
qed

lemma step_tracking: "tracking s \<Longrightarrow> tracking (step e s)"
  unfolding tracking_def
proof
  assume a: "settled s \<and> inflight_ok s"
  then show "settled (step e s)" by (simp add: step_settled)
  have "consistent (handle_event e s)" using a by (simp add: settled_def handle_event_consistent)
  then show "inflight_ok (step e s)"
    unfolding step_def using handle_event_ok [of s e] a by (simp add: effect_inflight)
qed

lemma run_tracking: "tracking s \<Longrightarrow> tracking (run es s)"
  by (induction es arbitrary: s) (simp_all add: step_tracking)

lemma tracking_initial: "tracking initial"
  using settled_initial by (simp add: tracking_def inflight_ok_def initial_def)

subsection \<open>States reached from the initial state\<close>

lemma run_actions_append: "run_actions (xs @ ys) s = run_actions ys (run_actions xs s)"
  by (induction xs arbitrary: s) simp_all

lemma reachable_tracking: "tracking (run es initial)"
  by (simp add: run_tracking tracking_initial)

lemma reachable_actions_settled: "settled (run_actions as initial)"
  by (simp add: run_actions_settled settled_initial)

lemma effect_files: "consistent s \<Longrightarrow> files (effect s) = files s"
  by (cases "client s") (auto simp: effect_eq_Some effect_eq_Nil consistent_def)

lemma effect_noop:
  "ident ` set (files s) \<subseteq> ident ` set (filesToUpload s) \<Longrightarrow> effect s = s"
proof -
  assume "ident ` set (files s) \<subseteq> ident ` set (filesToUpload s)"
  then have "newFilesToUpload (files s) (filesToUpload s) = []"
    by (auto simp: newFilesToUpload_eq filter_empty_conv)
  then show ?thesis by (simp add: effect_def)
qed

lemma count_list_distinct:
  "distinct xs \<Longrightarrow> count_list xs i = (if i \<in> set xs then 1 else 0)"
  by (induction xs) auto

lemma filter_ident_single:
  "distinct (map ident xs) \<Longrightarrow> e \<in> set xs \<Longrightarrow> filter (\<lambda>x. ident x = ident e) xs = [e]"
proof (induction xs)
  case Nil
  then show ?case by simp
next
  case (Cons x xs)
  show ?case
  proof (cases "x = e")
    case True
    have "filter (\<lambda>y. ident y = ident e) xs = []"
      using Cons.prems(1) True by (auto simp: filter_empty_conv image_iff)
    then show ?thesis using True by simp
  next
    case False
    then have "e \<in> set xs" using Cons.prems(2) by simp
    moreover have "ident x \<noteq> ident e" using Cons.prems(1) calculation by (auto simp: image_iff)
    ultimately show ?thesis using Cons by simp
  qed
qed

section \<open>Lemmas on single events\<close>

lemma uploadFiles_calls:
  "put_handles (calls (snd (uploadFiles fs tok s))) = put_handles (calls s)"
  by (cases "client s"; cases tok)
     (simp_all add: uploadFiles_def uploadFiles_call_def uploadFiles_resume_def Let_def)

lemma keep_first_handles:
  "ident ` set (keep_first S (map pendingEntry fs)) \<subseteq> (\<lambda>r. handle (inputFile r)) ` set fs"
proof -
  have "ident ` set (keep_first S (map pendingEntry fs)) \<subseteq> ident ` set (map pendingEntry fs)"
    using keep_first_subset [of S "map pendingEntry fs"] by blast
  also have "\<dots> = (\<lambda>r. handle (inputFile r)) ` set fs"
    by (simp add: image_image ident_def pendingEntry_def)
  finally show ?thesis .
qed

lemma effect_put_handles:
  assumes "consistent s"
  shows "put_handles (calls (effect s)) =
           put_handles (calls s) @ map ident (newFilesToUpload (files s) (filesToUpload s))"
proof (cases "client s")
  case None
  with assms have "files s = []" by (simp add: consistent_def)
  then show ?thesis by (simp add: effect_eq_Nil newFilesToUpload_def)
next
  case (Some c)
  then show ?thesis by (simp add: effect_eq_Some)
qed

lemma inFlight_remove1:
  assumes d: "distinct (map ident (awaitingPut s))" and f: "inFlight i s = Some fl"
  shows "find (\<lambda>g. ident g = i) (remove1 fl (awaitingPut s)) = None"
proof -
  have m: "fl \<in> set (awaitingPut s)" and k: "ident fl = i" using inFlight_Some [OF f] by simp_all
  from remove1_idents [OF d m] have "ident fl \<notin> ident ` set (remove1 fl (awaitingPut s))" by simp
  then show ?thesis using k by (simp add: find_None_iff) (metis imageI)
qed

lemma callbackOf_Some: "callbackOf i s = Some file \<Longrightarrow> ident file = i"
  by (auto simp: callbackOf_def find_Some_iff)

lemma putFailed_step:
  assumes t: "settled s" and f: "inFlight i s = Some fl"
  shows "step (PutRejected i err) s =
           s\<lparr> awaitingPut := remove1 fl (awaitingPut s),
              files := markFileFailed fl err (files s),
              calls := calls s @ [MarkFileFailed i err, ConsoleError err] \<rparr>"
proof -
  have k: "ident fl = i" using inFlight_Some [OF f] by simp
  have sub: "ident ` set (files s) \<subseteq> ident ` set (filesToUpload s)"
    using t by (simp add: settled_def)
  let ?h = "s\<lparr> awaitingPut := remove1 fl (awaitingPut s),
              files := markFileFailed fl err (files s),
              calls := calls s @ [MarkFileFailed i err, ConsoleError err] \<rparr>"
  have "handle_event (PutRejected i err) s = ?h" using f k by (simp add: putFailed_def)
  moreover have "effect ?h = ?h" using sub by (intro effect_noop) simp
  ultimately show ?thesis by (simp add: step_def)
qed

lemma putSucceeded_step:
  assumes t: "settled s" and f: "inFlight i s = Some fl"
  shows "step (PutResolved i) s =
           s\<lparr> awaitingPut := remove1 fl (awaitingPut s),
              files := markFileCompleted fl (files s),
              calls := calls s @ [MarkFileCompleted i, Refetch] \<rparr>"
proof -
  have k: "ident fl = i" using inFlight_Some [OF f] by simp
  have sub: "ident ` set (files s) \<subseteq> ident ` set (filesToUpload s)"
    using t by (simp add: settled_def)
  let ?h = "s\<lparr> awaitingPut := remove1 fl (awaitingPut s),
              files := markFileCompleted fl (files s),
              calls := calls s @ [MarkFileCompleted i, Refetch] \<rparr>"
  have "handle_event (PutResolved i) s = ?h" using f k by (simp add: putSucceeded_def)
  moreover have "effect ?h = ?h" using sub by (intro effect_noop) simp
  ultimately show ?thesis by (simp add: step_def)
qed

lemma onStoredChunk_step:
  assumes t: "settled s" and f: "callbackOf i s = Some fl"
  shows "step (StoredChunk i n) s =
           s\<lparr> files := updateFileProgress fl n (files s),
              calls := calls s @ [UpdateFileProgress i n] \<rparr>"
proof -
  have k: "ident fl = i" using callbackOf_Some [OF f] by simp
  have sub: "ident ` set (files s) \<subseteq> ident ` set (filesToUpload s)"
    using t by (simp add: settled_def)
  let ?h = "s\<lparr> files := updateFileProgress fl n (files s),
              calls := calls s @ [UpdateFileProgress i n] \<rparr>"
  have "handle_event (StoredChunk i n) s = ?h" using f k by (simp add: onStoredChunk_def)
  moreover have "effect ?h = ?h" using sub by (intro effect_noop) simp
  ultimately show ?thesis by (simp add: step_def)
qed

lemma idle_step:
  assumes t: "settled s" and f: "inFlight i s = None"
  shows "step (PutRejected i err) s = s" "step (PutResolved i) s = s"
proof -
  have sub: "ident ` set (files s) \<subseteq> ident ` set (filesToUpload s)"
    using t by (simp add: settled_def)
  have "effect s = s" using sub by (rule effect_noop)
  then show "step (PutRejected i err) s = s" "step (PutResolved i) s = s"
    using f by (simp_all add: step_def)
qed

lemma idle_chunk:
  assumes t: "settled s" and f: "callbackOf i s = None"
  shows "step (StoredChunk i n) s = s"
proof -
  have sub: "ident ` set (files s) \<subseteq> ident ` set (filesToUpload s)"
    using t by (simp add: settled_def)
  have "effect s = s" using sub by (rule effect_noop)
  then show ?thesis using f by (simp add: step_def)
qed

lemma inflight_entry:
  assumes t: "tracking s" and f: "inFlight i s = Some fl"
  shows "\<exists>e\<in>set (files s). ident e = i \<and> \<not> terminal (status e)"
  using t inFlight_Some [OF f] by (auto simp: tracking_def inflight_ok_def)

lemma client_of_files: "consistent s \<Longrightarrow> e \<in> set (files s) \<Longrightarrow> \<exists>c. client s = Some c"
  by (auto simp: consistent_def)

lemma filter_other_map:
  assumes "\<And>x. ident (g x) = ident x" and "\<And>x. ident x \<noteq> i \<Longrightarrow> g x = x"
  shows "filter (\<lambda>e. ident e \<noteq> i) (map g xs) = filter (\<lambda>e. ident e \<noteq> i) xs"
  using assms by (induction xs) auto

lemma hook_other:
  "filter (\<lambda>e. ident e \<noteq> ident fl) (markFileFailed fl err xs) = filter (\<lambda>e. ident e \<noteq> ident fl) xs"
  "filter (\<lambda>e. ident e \<noteq> ident fl) (markFileCompleted fl xs) = filter (\<lambda>e. ident e \<noteq> ident fl) xs"
  "filter (\<lambda>e. ident e \<noteq> ident fl) (updateFileProgress fl n xs) = filter (\<lambda>e. ident e \<noteq> ident fl) xs"
  unfolding markFileFailed_def markFileCompleted_def updateFileProgress_def
  by (rule filter_other_map; simp)+

lemma reachable_put_once: "count_list (put_handles (calls (run es initial))) i \<le> 1"
proof -
  have "tracking (run es initial)" by (rule reachable_tracking)
  then have "distinct (put_handles (calls (run es initial)))"
    by (simp add: tracking_def settled_def consistent_def)
  then show ?thesis by (simp add: count_list_distinct)
qed

lemma step_files_handler: "consistent s \<Longrightarrow> files (step ev s) = files (handle_event ev s)"
  unfolding step_def by (rule effect_files) (rule handle_event_consistent)

lemma terminal_hook:
  assumes "e \<in> set xs" and "terminal (status e)"
  shows "e \<in> set (markFileFailed fl err xs)" "e \<in> set (markFileCompleted fl xs)"
    "e \<in> set (updateFileProgress fl n xs)"
  unfolding markFileFailed_def markFileCompleted_def updateFileProgress_def
  using assms by (auto simp: image_iff intro!: bexI [of _ e])

lemma constructions_append [simp]:
  "constructions (xs @ ys) = constructions xs + constructions ys"
  by (simp add: constructions_def)

lemma constructions_simps [simp]:
  "constructions [] = 0"
  "constructions (NewWeb3Storage t # cs) = Suc (constructions cs)"
  "constructions (GetToken # cs) = constructions cs"
  "constructions (Put c f n # cs) = constructions cs"
  "constructions (UpdateFileProgress i k # cs) = constructions cs"
  "constructions (MarkFileCompleted i # cs) = constructions cs"
  "constructions (MarkFileFailed i err # cs) = constructions cs"
  "constructions (ConsoleError err # cs) = constructions cs"
  "constructions (Refetch # cs) = constructions cs"
  "constructions (GetUploadsRequest a # cs) = constructions cs"
  "constructions (ListPinsRequest st token # cs) = constructions cs"
  by (simp_all add: constructions_def)

lemma startUpload_client:
  "client (startUpload f s) = client s \<and>
   constructions (calls (startUpload f s)) = constructions (calls s)"
  by (cases "client s") (simp_all add: startUpload_def putFailed_def)

lemma fold_startUpload_client:
  "client (fold startUpload new s) = client s \<and>
   constructions (calls (fold startUpload new s)) = constructions (calls s)"
  by (induction new arbitrary: s) (simp_all add: startUpload_client)

lemma effect_client:
  "client (effect s) = client s \<and> constructions (calls (effect s)) = constructions (calls s)"
  by (simp add: effect_def Let_def fold_startUpload_client)

lemma effect_single_client: "single_client s \<Longrightarrow> single_client (effect s)"
  by (simp add: single_client_def effect_client)

lemma handle_event_single_client: "single_client s \<Longrightarrow> single_client (handle_event e s)"
proof (cases e)
  case (UploadFiles fs tok)
  assume "single_client s"
  then show ?thesis using UploadFiles
    by (cases "client s"; cases tok)
       (simp_all add: single_client_def uploadFiles_def uploadFiles_call_def
          uploadFiles_resume_def Let_def)
next
  case ClearUploadedFiles
  assume "single_client s"
  then show ?thesis using ClearUploadedFiles
    by (simp add: single_client_def clearUploadedFiles_def)
next
  case (StoredChunk i n)
  assume "single_client s"
  then show ?thesis using StoredChunk
    by (cases "callbackOf i s") (simp_all add: single_client_def onStoredChunk_def)
next
  case (PutResolved i)
  assume "single_client s"
  then show ?thesis using PutResolved
    by (cases "inFlight i s") (simp_all add: single_client_def putSucceeded_def)
next
  case (PutRejected i err)
  assume "single_client s"
  then show ?thesis using PutRejected
    by (cases "inFlight i s") (simp_all add: single_client_def putFailed_def)
next
  case (GetUploads args response now)
  assume "single_client s"
  then show ?thesis using GetUploads
    by (cases response) (simp_all add: single_client_def getUploadsCallback_def)
next
  case (ListPinned st token response now)
  assume "single_client s"
  then show ?thesis using ListPinned
    by (cases response) (simp_all add: single_client_def listPinnedCallback_def)
qed

lemma run_single_client: "single_client s \<Longrightarrow> single_client (run es s)"
  by (induction es arbitrary: s)
     (simp_all add: step_def effect_single_client handle_event_single_client)

lemma handle_event_keeps_client: "client s = Some c \<Longrightarrow> client (handle_event e s) = Some c"
proof (cases e)
  case (UploadFiles fs tok)
  assume "client s = Some c"
  then show ?thesis using UploadFiles by (simp add: uploadFiles_def uploadFiles_call_def)
next
  case ClearUploadedFiles
  assume "client s = Some c"
  then show ?thesis using ClearUploadedFiles by (simp add: clearUploadedFiles_def)
next
  case (StoredChunk i n)
  assume "client s = Some c"
  then show ?thesis using StoredChunk by (cases "callbackOf i s") (simp_all add: onStoredChunk_def)
next
  case (PutResolved i)
  assume "client s = Some c"
  then show ?thesis using PutResolved by (cases "inFlight i s") (simp_all add: putSucceeded_def)
next
  case (PutRejected i err)
  assume "client s = Some c"
  then show ?thesis using PutRejected by (cases "inFlight i s") (simp_all add: putFailed_def)
next
  case (GetUploads args response now)
  assume "client s = Some c"
  then show ?thesis using GetUploads by (cases response) (simp_all add: getUploadsCallback_def)
next
  case (ListPinned st token response now)
  assume "client s = Some c"
  then show ?thesis using ListPinned by (cases response) (simp_all add: listPinnedCallback_def)
qed

lemma terminal_entry_step:
  assumes "e \<in> set (files (run es initial))" and "terminal (status e)"
  shows "e \<in> set (files (run (es @ [ev]) initial)) \<or>
         (ev = ClearUploadedFiles \<and> status e = COMPLETED \<and>
          ident e \<notin> ident ` set (files (run (es @ [ev]) initial)))"
proof -
  let ?s = "run es initial"
  have t: "tracking ?s" by (rule reachable_tracking)
  then have c: "consistent ?s" and d: "distinct (map ident (files ?s))"
    by (simp_all add: tracking_def settled_def consistent_def)
  have r: "files (run (es @ [ev]) initial) = files (handle_event ev ?s)"
    using step_files_handler [OF c] by (simp add: run_actions_append)
  show ?thesis
  proof (cases ev)
    case (UploadFiles fs tok)
    then show ?thesis using uploadFiles_files [OF d, of fs tok] assms(1) r by auto
  next
    case ClearUploadedFiles
    have f: "files (handle_event ev ?s) = filter (\<lambda>x. status x \<noteq> COMPLETED) (files ?s)"
      using ClearUploadedFiles clearUploadedFiles_files [OF d] by simp
    show ?thesis
    proof (cases "status e = COMPLETED")
      case True
      have "\<And>x. x \<in> set (files ?s) \<Longrightarrow> ident x = ident e \<Longrightarrow> x = e"
        using d assms(1) by (meson distinct_map inj_onD)
      then have "ident e \<notin> ident ` set (filter (\<lambda>x. status x \<noteq> COMPLETED) (files ?s))"
        using True by auto
      then show ?thesis using ClearUploadedFiles True r f by simp
    next
      case False
      then show ?thesis using assms(1) r f by simp
    qed
  next
    case (StoredChunk i n)
    then show ?thesis using assms r terminal_hook(3) [OF assms]
      by (cases "callbackOf i ?s") (simp_all add: onStoredChunk_def)
  next
    case (PutResolved i)
    then show ?thesis using assms r terminal_hook(2) [OF assms]
      by (cases "inFlight i ?s") (simp_all add: putSucceeded_def)
  next
    case (PutRejected i err)
    then show ?thesis using assms r terminal_hook(1) [OF assms]
      by (cases "inFlight i ?s") (simp_all add: putFailed_def)
  next
    case (GetUploads args response now)
    then show ?thesis using assms(1) r
      by (cases response) (simp_all add: getUploadsCallback_def)
  next
    case (ListPinned st token response now)
    then show ?thesis using assms(1) r
      by (cases response) (simp_all add: listPinnedCallback_def)
  qed
qed

lemma failed_entry_persists:
  assumes "e \<in> set (files (run es initial))" and "status e = FAILED"
  shows "e \<in> set (files (run (es @ es') initial))"
proof (induction es' rule: rev_induct)
  case Nil
  then show ?case using assms(1) by simp
next
  case (snoc ev es')
  have t: "terminal (status e)" using assms(2) by (simp add: terminal_def)
  have "e \<in> set (files (run ((es @ es') @ [ev]) initial))"
    using terminal_entry_step [OF snoc.IH t, of ev] assms(2) by auto
  then show ?case by simp
qed

subsection \<open>Calls of \<^verbatim>\<open>refetch\<close>\<close>

lemma startUpload_refetches: "refetches (calls (startUpload f s)) = refetches (calls s)"
  by (cases "client s") (simp_all add: startUpload_def putFailed_def)

lemma fold_startUpload_refetches:
  "refetches (calls (fold startUpload new s)) = refetches (calls s)"
  by (induction new arbitrary: s) (simp_all add: startUpload_refetches)

lemma effect_refetches: "refetches (calls (effect s)) = refetches (calls s)"
  by (simp add: effect_def Let_def fold_startUpload_refetches)

lemma handle_event_refetches:
  "refetches (calls (handle_event e s)) =
     refetches (calls s) +
       (case e of PutResolved i \<Rightarrow> (case inFlight i s of None \<Rightarrow> 0 | Some fl \<Rightarrow> 1) | _ \<Rightarrow> 0)"
proof (cases e)
  case (UploadFiles fs tok)
  then show ?thesis
    by (cases "client s"; cases tok)
       (simp_all add: uploadFiles_def uploadFiles_call_def uploadFiles_resume_def Let_def)
next
  case ClearUploadedFiles
  then show ?thesis by (simp add: clearUploadedFiles_def)
next
  case (StoredChunk i n)
  then show ?thesis by (cases "callbackOf i s") (simp_all add: onStoredChunk_def)
next
  case (PutResolved i)
  then show ?thesis by (cases "inFlight i s") (simp_all add: putSucceeded_def)
next
  case (PutRejected i err)
  then show ?thesis by (cases "inFlight i s") (simp_all add: putFailed_def)
next
  case (GetUploads args response now)
  then show ?thesis by (cases response) (simp_all add: getUploadsCallback_def)
next
  case (ListPinned st token response now)
  then show ?thesis by (cases response) (simp_all add: listPinnedCallback_def)
qed

lemma act_refetches:
  assumes "\<And>i. a \<noteq> Atomic (PutResolved i)"
  shows "refetches (calls (act a s)) = refetches (calls s)"
proof (cases a)
  case (Atomic e)
  then have "\<And>i. e \<noteq> PutResolved i" using assms by auto
  then have "(case e of PutResolved i \<Rightarrow> (case inFlight i s of None \<Rightarrow> 0 | Some fl \<Rightarrow> 1) | _ \<Rightarrow> 0) = (0::nat)"
    by (cases e) (simp_all, metis)
  then show ?thesis using Atomic by (simp add: step_def effect_refetches handle_event_refetches)
next
  case (UploadFilesCalled fs)
  then show ?thesis
    by (cases "client s") (simp_all add: effect_refetches uploadFiles_call_def)
next
  case (TokenSettled k tok)
  then show ?thesis
    by (cases tok) (simp_all add: effect_refetches uploadFiles_resume_def Let_def)
qed

section \<open>Invocations that do not overlap\<close>

text \<open>
  What holds when every \<^verbatim>\<open>uploadFiles\<close> invocation runs to its end before the next event.
  At most one client is built, the module variable is set exactly when one was built, and
  once it is set every event leaves it as it is and builds nothing.
\<close>

lemma sequential_single_client:
  "constructions (calls (run es initial)) \<le> 1 \<and>
   (client (run es initial) = None \<longleftrightarrow> constructions (calls (run es initial)) = 0) \<and>
   (client (run es initial) = Some c \<longrightarrow>
      client (run (es @ [ev]) initial) = Some c \<and>
      constructions (calls (run (es @ [ev]) initial)) = 1)"
proof -
  have i: "single_client initial" by (simp add: single_client_def initial_def)
  have a: "single_client (run es initial)" using i by (rule run_single_client)
  have b: "single_client (run (es @ [ev]) initial)" using i by (rule run_single_client)
  have k: "client (run es initial) = Some c \<Longrightarrow> client (run (es @ [ev]) initial) = Some c"
    by (simp add: run_actions_append step_def effect_client handle_event_keeps_client)
  show ?thesis using a b k by (auto simp: single_client_def split: option.splits)
qed

text \<open>
  An entry that is tracked stays the one entry of its identity, unchanged, when any list
  is submitted, and transfers are started only for identities that were not tracked.
\<close>

lemma sequential_resubmission_keeps_entry:
  assumes "e \<in> set (files (run es initial))"
  shows "filter (\<lambda>x. ident x = ident e) (files (run (es @ [UploadFiles fs tok]) initial)) = [e] \<and>
         (\<exists>new. put_handles (calls (run (es @ [UploadFiles fs tok]) initial)) =
                   put_handles (calls (run es initial)) @ new \<and>
                 ident e \<notin> set new \<and>
                 set new \<inter> ident ` set (files (run es initial)) = {} \<and>
                 set new \<inter> ident ` set (filesToUpload (run es initial)) = {} \<and>
                 set new \<subseteq> (\<lambda>r. handle (inputFile r)) ` set fs)"
proof -
  let ?s = "run es initial"
  let ?h = "snd (uploadFiles fs tok ?s)"
  let ?s' = "run (es @ [UploadFiles fs tok]) initial"
  let ?new = "map ident (newFilesToUpload (files ?h) (filesToUpload ?h))"
  have s': "?s' = effect ?h" by (simp add: run_actions_append step_def)
  have t: "tracking ?s" by (rule reachable_tracking)
  then have v: "settled ?s" and c: "consistent ?s"
    and d: "distinct (map ident (files ?s))"
    and sub: "ident ` set (files ?s) \<subseteq> ident ` set (filesToUpload ?s)"
    by (simp_all add: tracking_def settled_def consistent_def)
  have ch: "consistent ?h" using c by (rule uploadFiles_consistent)
  have t': "tracking ?s'" by (rule reachable_tracking)
  then have d': "distinct (map ident (files ?s'))"
    by (simp add: tracking_def settled_def consistent_def)
  have fh: "files ?s' = files ?h" unfolding s' using ch by (rule effect_files)
  have mem: "e \<in> set (files ?h)" using uploadFiles_files [OF d, of fs tok] assms by auto
  have idh: "ident ` set (files ?h) \<subseteq> ident ` set (files ?s) \<union> (\<lambda>r. handle (inputFile r)) ` set fs"
  proof -
    from uploadFiles_files [OF d, of fs tok] show ?thesis
    proof
      assume "files ?h = files ?s"
      then show ?thesis by auto
    next
      assume "files ?h = files ?s @ keep_first (ident ` set (files ?s)) (map pendingEntry fs)"
      then have "ident ` set (files ?h) =
          ident ` set (files ?s) \<union> ident ` set (keep_first (ident ` set (files ?s)) (map pendingEntry fs))"
        by (simp add: image_Un)
      then show ?thesis
        using keep_first_handles [of "ident ` set (files ?s)" fs] by blast
    qed
  qed
  have one: "filter (\<lambda>x. ident x = ident e) (files ?s') = [e]"
    using d' mem fh by (simp add: filter_ident_single)
  have p: "put_handles (calls ?s') = put_handles (calls ?s) @ ?new"
    unfolding s' by (simp add: effect_put_handles [OF ch] uploadFiles_calls)
  have n1: "set ?new \<inter> ident ` set (filesToUpload ?s) = {}"
    by (auto simp: newFilesToUpload_eq uploadFiles_other)
  have n2: "set ?new \<inter> ident ` set (files ?s) = {}" using n1 sub by blast
  have n3: "ident e \<notin> set ?new" using n2 assms by blast
  have n4: "set ?new \<subseteq> (\<lambda>r. handle (inputFile r)) ` set fs"
    using idh sub by (auto simp: newFilesToUpload_eq uploadFiles_other)
  show ?thesis using one p n1 n2 n3 n4 by blast
qed

text \<open>
  A transfer in flight that fails turns the entry of its file, which is not terminal, to
  \<^verbatim>\<open>failed\<close> with the error.
\<close>

lemma sequential_transfer_error_recorded:
  assumes "inFlight i (run es initial) = Some fl"
  shows "fst (putFailed fl err (run es initial\<lparr> awaitingPut := remove1 fl (awaitingPut (run es initial)) \<rparr>)) = Inr () \<and>
         calls (run (es @ [PutRejected i err]) initial) =
           calls (run es initial) @ [MarkFileFailed i err, ConsoleError err] \<and>
         (\<exists>e. e \<in> set (files (run es initial)) \<and> ident e = i \<and> \<not> terminal (status e) \<and>
              filter (\<lambda>x. ident x = i) (files (run (es @ [PutRejected i err]) initial)) =
                [e\<lparr> status := FAILED, errorDetail := Some err \<rparr>]) \<and>
         inFlight i (run (es @ [PutRejected i err]) initial) = None \<and>
         (\<forall>fs tok. fst (uploadFiles fs tok (run (es @ [PutRejected i err]) initial)) = Inr ())"
proof -
  let ?s = "run es initial"
  let ?s' = "run (es @ [PutRejected i err]) initial"
  have t: "tracking ?s" by (rule reachable_tracking)
  then have v: "settled ?s" by (simp add: tracking_def)
  have t': "tracking ?s'" by (rule reachable_tracking)
  have k: "ident fl = i" using inFlight_Some [OF assms] by simp
  have s': "?s' = ?s\<lparr> awaitingPut := remove1 fl (awaitingPut ?s),
              files := markFileFailed fl err (files ?s),
              calls := calls ?s @ [MarkFileFailed i err, ConsoleError err] \<rparr>"
    using putFailed_step [OF v assms] by (simp add: run_actions_append)
  have a: "fst (putFailed fl err (?s\<lparr> awaitingPut := remove1 fl (awaitingPut ?s) \<rparr>)) = Inr ()"
    by (simp add: putFailed_def)
  have b: "calls ?s' = calls ?s @ [MarkFileFailed i err, ConsoleError err]"
    by (subst s') simp
  obtain e where e: "e \<in> set (files ?s)" "ident e = i" "\<not> terminal (status e)"
    using inflight_entry [OF t assms] by blast
  let ?e' = "e\<lparr> status := FAILED, errorDetail := Some err \<rparr>"
  have fs': "files ?s' = markFileFailed fl err (files ?s)" by (subst s') simp
  have "?e' \<in> set (files ?s')"
    unfolding fs' markFileFailed_def using e k by (auto simp: image_iff intro!: bexI [of _ e])
  moreover have "distinct (map ident (files ?s'))"
    using t' by (simp add: tracking_def settled_def consistent_def)
  ultimately have "filter (\<lambda>x. ident x = ident ?e') (files ?s') = [?e']"
    by (intro filter_ident_single)
  then have c: "filter (\<lambda>x. ident x = i) (files ?s') = [?e']" using e(2) by simp
  have "distinct (map ident (awaitingPut ?s))"
    using t by (simp add: tracking_def settled_def consistent_def)
  then have "find (\<lambda>g. ident g = i) (remove1 fl (awaitingPut ?s)) = None"
    using assms by (rule inFlight_remove1)
  moreover have "awaitingPut ?s' = remove1 fl (awaitingPut ?s)" by (subst s') simp
  ultimately have d: "inFlight i ?s' = None" by (simp add: inFlight_def)
  have "consistent ?s" using t by (simp add: tracking_def settled_def)
  then obtain cl where "client ?s = Some cl" using e(1) client_of_files by blast
  moreover have "client ?s' = client ?s" by (subst s') simp
  ultimately have g: "\<forall>fs tok. fst (uploadFiles fs tok ?s') = Inr ()"
    by (simp add: uploadFiles_def)
  show ?thesis using a b c d e g by blast
qed

section \<open>The claims\<close>

text \<open>
  In the statements below \<open>run_actions as initial\<close> is the provider after the actions
  \<open>as\<close>, among which \<^verbatim>\<open>uploadFiles\<close> invocations may overlap, and \<open>run es initial\<close> is the
  provider after the events \<open>es\<close>, each handled to its end before the next.
\<close>

subsection \<open>C1: \<^verbatim>\<open>clearUploadedFiles\<close>\<close>

text \<open>
  C1, as amended. At every moment, overlapping invocations included,
  \<^verbatim>\<open>clearUploadedFiles()\<close> leaves exactly the entries whose status is not \<^verbatim>\<open>completed\<close>,
  in their order, and it returns \<^verbatim>\<open>false\<close> if and only if the tracked list was empty
  before the call.
\<close>

theorem clearUploadedFiles_removes_completed:
  "files (snd (clearUploadedFiles (run_actions as initial))) =
     filter (\<lambda>e. status e \<noteq> COMPLETED) (files (run_actions as initial)) \<and>
   (fst (clearUploadedFiles (run_actions as initial)) = False \<longleftrightarrow>
      files (run_actions as initial) = [])"
proof -
  have "settled (run_actions as initial)" by (rule reachable_actions_settled)
  then have "distinct (map ident (files (run_actions as initial)))"
    by (simp add: settled_def consistent_def)
  then show ?thesis by (simp add: clearUploadedFiles_files) (simp add: clearUploadedFiles_def)
qed

text \<open>File A has failed and file B is completed: clearing leaves A and returns \<^verbatim>\<open>true\<close>.\<close>

theorem clearUploadedFiles_removes_completed_witness:
  "map ident (files (snd (clearUploadedFiles (run_actions
      [Atomic (UploadFiles [fileA, fileB] (Inr ''token'')),
       Atomic (PutRejected 1 (TransferError ''offline'')), Atomic (PutResolved 2)] initial)))) = [1] \<and>
   fst (clearUploadedFiles (run_actions
      [Atomic (UploadFiles [fileA, fileB] (Inr ''token'')),
       Atomic (PutRejected 1 (TransferError ''offline'')), Atomic (PutResolved 2)] initial)) = True"
proof -
  let ?as = "[Atomic (UploadFiles [fileA, fileB] (Inr ''token'')),
       Atomic (PutRejected 1 (TransferError ''offline'')), Atomic (PutResolved 2)]"
  have v: "map ident (filter (\<lambda>e. status e \<noteq> COMPLETED) (files (run_actions ?as initial))) = [1]"
    by code_simp
  have n: "files (run_actions ?as initial) \<noteq> []" by code_simp
  show ?thesis using clearUploadedFiles_removes_completed [of ?as] v n by simp
qed

text \<open>
  The claim as first stated has the result \<^verbatim>\<open>false\<close> exactly when the tracked list is empty
  after the removal. File A alone is submitted and completes; every entry is then
  \<^verbatim>\<open>completed\<close>, the list is empty after the call, and the call returns \<^verbatim>\<open>true\<close>.
\<close>

theorem clearUploadedFiles_return_counterexample:
  "map status (files (run [UploadFiles [fileA] (Inr ''token''), PutResolved 1] initial)) = [COMPLETED] \<and>
   files (snd (clearUploadedFiles (run [UploadFiles [fileA] (Inr ''token''), PutResolved 1] initial))) = [] \<and>
   fst (clearUploadedFiles (run [UploadFiles [fileA] (Inr ''token''), PutResolved 1] initial)) = True"
  by code_simp

subsection \<open>C2: one entry per file identity\<close>

text \<open>
  C2. Whatever is submitted and in whatever order things happen, overlapping invocations
  included, no two entries of \<^verbatim>\<open>filesToUpload\<close> and no two entries of \<^verbatim>\<open>progress.files\<close>
  have the same file identity, where the identity of an entry is the handle of its input
  file and not its bytes.
\<close>

theorem tracked_identities_distinct:
  "distinct (map ident (filesToUpload (run_actions as initial))) \<and>
   distinct (map ident (files (run_actions as initial)))"
  using reachable_actions_settled [of as] by (simp add: settled_def consistent_def)

text \<open>
  A, B and A again are submitted, then B again: A and B, which hold the same bytes, are
  tracked once each.
\<close>

theorem tracked_identities_distinct_witness:
  "distinct (map ident (filesToUpload (run_actions
      [Atomic (UploadFiles [fileA, fileB, fileA] (Inr ''token'')),
       Atomic (UploadFiles [fileB] (Inr ''token''))] initial))) \<and>
   map ident (filesToUpload (run_actions
      [Atomic (UploadFiles [fileA, fileB, fileA] (Inr ''token'')),
       Atomic (UploadFiles [fileB] (Inr ''token''))] initial)) = [1, 2] \<and>
   content (inputFile fileA) = content (inputFile fileB)"
proof -
  let ?as = "[Atomic (UploadFiles [fileA, fileB, fileA] (Inr ''token'')),
       Atomic (UploadFiles [fileB] (Inr ''token''))]"
  have a: "map ident (filesToUpload (run_actions ?as initial)) = [1, 2]" by code_simp
  have b: "content (inputFile fileA) = content (inputFile fileB)" by code_simp
  show ?thesis using tracked_identities_distinct [of ?as] a b by blast
qed

subsection \<open>C3: submitting a tracked file again\<close>


subsection \<open>C4: one transfer per identity\<close>

text \<open>
  C4. At every moment, overlapping invocations included, the \<^verbatim>\<open>client.put\<close> calls made so
  far are one call for each entry of \<^verbatim>\<open>filesToUpload\<close>, in order; no identity has more than
  one call, and every identity that has an entry in \<^verbatim>\<open>progress.files\<close> has exactly one.
\<close>

theorem one_put_per_identity:
  "put_handles (calls (run_actions as initial)) = map ident (filesToUpload (run_actions as initial)) \<and>
   (\<forall>i. count_list (put_handles (calls (run_actions as initial))) i \<le> 1) \<and>
   (\<forall>e\<in>set (files (run_actions as initial)).
      count_list (put_handles (calls (run_actions as initial))) (ident e) = 1)"
proof -
  let ?s = "run_actions as initial"
  have v: "settled ?s" by (rule reachable_actions_settled)
  then have p: "put_handles (calls ?s) = map ident (filesToUpload ?s)"
    and d: "distinct (map ident (filesToUpload ?s))"
    and sub: "ident ` set (files ?s) \<subseteq> ident ` set (filesToUpload ?s)"
    by (simp_all add: settled_def consistent_def)
  show ?thesis using p d sub by (auto simp: count_list_distinct)
qed

theorem one_put_per_identity_witness:
  "pendingEntry fileA \<in> set (files (run_actions
      [Atomic (UploadFiles [fileA, fileB, fileA] (Inr ''token'')),
       Atomic (UploadFiles [fileA] (Inr ''token''))] initial)) \<and>
   count_list (put_handles (calls (run_actions
      [Atomic (UploadFiles [fileA, fileB, fileA] (Inr ''token'')),
       Atomic (UploadFiles [fileA] (Inr ''token''))] initial))) (ident (pendingEntry fileA)) = 1"
proof -
  let ?as = "[Atomic (UploadFiles [fileA, fileB, fileA] (Inr ''token'')),
       Atomic (UploadFiles [fileA] (Inr ''token''))]"
  have h: "pendingEntry fileA \<in> set (files (run_actions ?as initial))" by code_simp
  show ?thesis using one_put_per_identity [of ?as] h by blast
qed

subsection \<open>C5: a transfer that fails\<close>


subsection \<open>C6: other files are not affected\<close>

text \<open>
  At every moment, overlapping invocations included, a transfer that fails and a transfer
  that succeeds leave the entries of every other identity as they were, in the same
  order; a failure makes no \<^verbatim>\<open>client.put\<close> call, and there is never a second call for any
  identity. While invocations do not overlap, an entry that is \<^verbatim>\<open>failed\<close> stays in
  \<^verbatim>\<open>progress.files\<close> unchanged through all later events.
\<close>

lemma other_entries_untouched:
  "filter (\<lambda>e. ident e \<noteq> i) (files (run_actions (as @ [Atomic (PutRejected i err)]) initial)) =
     filter (\<lambda>e. ident e \<noteq> i) (files (run_actions as initial)) \<and>
   filter (\<lambda>e. ident e \<noteq> i) (files (run_actions (as @ [Atomic (PutResolved i)]) initial)) =
     filter (\<lambda>e. ident e \<noteq> i) (files (run_actions as initial)) \<and>
   put_handles (calls (run_actions (as @ [Atomic (PutRejected i err)]) initial)) =
     put_handles (calls (run_actions as initial)) \<and>
   count_list (put_handles (calls (run_actions as initial))) i \<le> 1"
proof -
  let ?s = "run_actions as initial"
  have t: "settled ?s" by (rule reachable_actions_settled)
  have r: "run_actions (as @ [Atomic (PutRejected i err)]) initial = step (PutRejected i err) ?s"
    "run_actions (as @ [Atomic (PutResolved i)]) initial = step (PutResolved i) ?s"
    by (simp_all add: run_actions_append)
  have a: "filter (\<lambda>e. ident e \<noteq> i) (files (step (PutRejected i err) ?s)) =
             filter (\<lambda>e. ident e \<noteq> i) (files ?s) \<and>
           filter (\<lambda>e. ident e \<noteq> i) (files (step (PutResolved i) ?s)) =
             filter (\<lambda>e. ident e \<noteq> i) (files ?s) \<and>
           put_handles (calls (step (PutRejected i err) ?s)) = put_handles (calls ?s)"
  proof (cases "inFlight i ?s")
    case None
    then show ?thesis using idle_step [OF t None] by simp
  next
    case (Some fl)
    have k: "ident fl = i" using inFlight_Some [OF Some] by simp
    show ?thesis
      using hook_other [of fl] k
      by (simp add: putFailed_step [OF t Some] putSucceeded_step [OF t Some])
  qed
  have "distinct (put_handles (calls ?s))" using t by (simp add: settled_def consistent_def)
  then have b: "count_list (put_handles (calls ?s)) i \<le> 1" by (simp add: count_list_distinct)
  show ?thesis using a b unfolding r by blast
qed


subsection \<open>C7: the account listing is refreshed once per completed file\<close>

text \<open>
  C7. At every moment, overlapping invocations included: in the calls made so far every
  \<^verbatim>\<open>markFileCompleted\<close> is followed at once by a \<^verbatim>\<open>refetch\<close> and there is no other
  \<^verbatim>\<open>refetch\<close>; there are as many \<^verbatim>\<open>refetch\<close> calls as \<^verbatim>\<open>markFileCompleted\<close> calls, and
  \<^verbatim>\<open>markFileCompleted\<close> is called for no file twice. No action other than the success of a
  transfer makes a \<^verbatim>\<open>refetch\<close> call; in particular a stored chunk and a failed transfer
  make none. A transfer in flight that succeeds makes the two calls \<^verbatim>\<open>markFileCompleted\<close>,
  \<^verbatim>\<open>refetch\<close> and no other, and \<^verbatim>\<open>progress.files\<close> is then what the hook's
  \<^verbatim>\<open>markFileCompleted\<close> makes of it; a success reported for a handle with no transfer in
  flight makes no call.
\<close>

theorem refetch_once_per_completion:
  "refetch_ok (calls (run_actions as initial)) \<and>
   refetches (calls (run_actions as initial)) =
     length (completed_handles (calls (run_actions as initial))) \<and>
   distinct (completed_handles (calls (run_actions as initial))) \<and>
   (\<forall>a. (\<forall>j. a \<noteq> Atomic (PutResolved j)) \<longrightarrow>
      refetches (calls (run_actions (as @ [a]) initial)) = refetches (calls (run_actions as initial))) \<and>
   refetches (calls (run_actions (as @ [Atomic (StoredChunk i n)]) initial)) =
     refetches (calls (run_actions as initial)) \<and>
   refetches (calls (run_actions (as @ [Atomic (PutRejected i err)]) initial)) =
     refetches (calls (run_actions as initial)) \<and>
   (case inFlight i (run_actions as initial) of
      None \<Rightarrow>
        calls (run_actions (as @ [Atomic (PutResolved i)]) initial) = calls (run_actions as initial)
    | Some fl \<Rightarrow>
        calls (run_actions (as @ [Atomic (PutResolved i)]) initial) =
          calls (run_actions as initial) @ [MarkFileCompleted i, Refetch] \<and>
        files (run_actions (as @ [Atomic (PutResolved i)]) initial) =
          markFileCompleted fl (files (run_actions as initial)))"
proof -
  let ?s = "run_actions as initial"
  have t: "settled ?s" by (rule reachable_actions_settled)
  then have g: "refetch_ok (calls ?s) \<and> refetches (calls ?s) = length (completed_handles (calls ?s)) \<and>
     distinct (completed_handles (calls ?s))"
    by (simp add: settled_def consistent_def)
  have r: "\<And>a. run_actions (as @ [a]) initial = act a ?s"
    by (simp add: run_actions_append)
  have n: "\<forall>a. (\<forall>j. a \<noteq> Atomic (PutResolved j)) \<longrightarrow>
      refetches (calls (act a ?s)) = refetches (calls ?s)"
    using act_refetches by blast
  have c: "refetches (calls (act (Atomic (StoredChunk i n)) ?s)) = refetches (calls ?s)"
    by (rule act_refetches) simp
  have f: "refetches (calls (act (Atomic (PutRejected i err)) ?s)) = refetches (calls ?s)"
    by (rule act_refetches) simp
  have h: "(case inFlight i ?s of
         None \<Rightarrow> calls (act (Atomic (PutResolved i)) ?s) = calls ?s
       | Some fl \<Rightarrow> calls (act (Atomic (PutResolved i)) ?s) = calls ?s @ [MarkFileCompleted i, Refetch] \<and>
           files (act (Atomic (PutResolved i)) ?s) = markFileCompleted fl (files ?s))"
  proof (cases "inFlight i ?s")
    case None
    then show ?thesis using idle_step(2) [OF t None] by simp
  next
    case (Some fl)
    then show ?thesis by (simp add: putSucceeded_step [OF t Some])
  qed
  show ?thesis using g n c f h unfolding r by blast
qed

text \<open>
  Two submissions have overlapped and the transfer of A is in flight: a stored chunk makes
  no \<^verbatim>\<open>refetch\<close> call, and the success of the transfer makes the two calls.
\<close>

theorem refetch_once_per_completion_witness:
  "inFlight 1 (run_actions
      [UploadFilesCalled [fileA], UploadFilesCalled [fileB],
       TokenSettled 0 (Inr ''token1''), TokenSettled 0 (Inr ''token2'')] initial) =
     Some (pendingEntry fileA) \<and>
   calls (run_actions
      ([UploadFilesCalled [fileA], UploadFilesCalled [fileB],
        TokenSettled 0 (Inr ''token1''), TokenSettled 0 (Inr ''token2'')] @
       [Atomic (PutResolved 1)]) initial) =
     calls (run_actions
      [UploadFilesCalled [fileA], UploadFilesCalled [fileB],
       TokenSettled 0 (Inr ''token1''), TokenSettled 0 (Inr ''token2'')] initial) @
     [MarkFileCompleted 1, Refetch] \<and>
   refetches (calls (run_actions
      ([UploadFilesCalled [fileA], UploadFilesCalled [fileB],
        TokenSettled 0 (Inr ''token1''), TokenSettled 0 (Inr ''token2'')] @
       [Atomic (StoredChunk 1 10)]) initial)) = 0"
proof -
  let ?as = "[UploadFilesCalled [fileA], UploadFilesCalled [fileB],
       TokenSettled 0 (Inr ''token1''), TokenSettled 0 (Inr ''token2'')]"
  have h: "inFlight 1 (run_actions ?as initial) = Some (pendingEntry fileA)" by code_simp
  have z: "completed_handles (calls (run_actions ?as initial)) = []" by code_simp
  have d: "\<forall>j. Atomic (StoredChunk 1 10) \<noteq> Atomic (PutResolved j)" by simp
  note th = refetch_once_per_completion [of ?as 1 0 "TransferError ''offline''"]
  from th have "refetches (calls (run_actions ?as initial)) = 0" using z by simp
  moreover from th d
  have "refetches (calls (run_actions (?as @ [Atomic (StoredChunk 1 10)]) initial)) =
      refetches (calls (run_actions ?as initial))" by blast
  moreover from th h
  have "calls (run_actions (?as @ [Atomic (PutResolved 1)]) initial) =
      calls (run_actions ?as initial) @ [MarkFileCompleted 1, Refetch]" by simp
  ultimately show ?thesis using h by simp
qed

subsection \<open>C8: terminal entries\<close>


subsection \<open>C9: the shared client\<close>

text \<open>
  C9. The claim that the client is built at most once fails when two invocations overlap.
  \<^verbatim>\<open>uploadFiles([fileA])\<close> reads \<^verbatim>\<open>client\<close>, finds it unset and waits for its token;
  \<^verbatim>\<open>uploadFiles([fileB])\<close> is called before that token arrives, finds \<^verbatim>\<open>client\<close> unset as
  well and waits for a token of its own; when the two tokens arrive each invocation builds
  a client. Two clients are built, the transfer of A is made with the first and the
  transfer of B with the second, which is the one the module variable holds in the end.
\<close>

theorem overlapping_uploadFiles_construct_twice:
  "constructions (calls (run_actions
      [UploadFilesCalled [fileA], UploadFilesCalled [fileB],
       TokenSettled 0 (Inr ''token1''), TokenSettled 0 (Inr ''token2'')] initial)) = 2 \<and>
   calls (run_actions
      [UploadFilesCalled [fileA], UploadFilesCalled [fileB],
       TokenSettled 0 (Inr ''token1''), TokenSettled 0 (Inr ''token2'')] initial) =
     [GetToken, GetToken,
      NewWeb3Storage ''token1'', Put (Web3Storage ''token1'') (inputFile fileA) (name fileA),
      NewWeb3Storage ''token2'', Put (Web3Storage ''token2'') (inputFile fileB) (name fileB)] \<and>
   client (run_actions
      [UploadFilesCalled [fileA], UploadFilesCalled [fileB],
       TokenSettled 0 (Inr ''token1''), TokenSettled 0 (Inr ''token2'')] initial) =
     Some (Web3Storage ''token2'')"
  by code_simp

subsection \<open>C10: \<^verbatim>\<open>getUploads\<close> and the total\<close>

text \<open>
  C10. When \<^verbatim>\<open>getUploads\<close> resolves, the stored list of uploads is replaced by the results
  of the page; \<^verbatim>\<open>totalUploads\<close> keeps its previous value when the count of the page is zero
  or missing, and becomes the count otherwise.
\<close>

theorem getUploads_keeps_total_on_zero:
  "uploads (snd (getUploadsCallback args (Inr pg) now s)) = results pg \<and>
   totalUploads (snd (getUploadsCallback args (Inr pg) now s)) =
     (case count pg of None \<Rightarrow> totalUploads s
      | Some n \<Rightarrow> if n = 0 then totalUploads s else n)"
  by (simp add: getUploadsCallback_def split: option.splits)

text \<open>A page with one result and count zero, when the total was 12.\<close>

theorem getUploads_keeps_total_on_zero_witness:
  "uploads (snd (getUploadsCallback None (Inr \<lparr> results = [''bafy1''], count = Some 0 \<rparr>) 7
      (initial\<lparr> totalUploads := 12 \<rparr>))) = [''bafy1''] \<and>
   totalUploads (snd (getUploadsCallback None (Inr \<lparr> results = [''bafy1''], count = Some 0 \<rparr>) 7
      (initial\<lparr> totalUploads := 12 \<rparr>))) = 12"
  using getUploads_keeps_total_on_zero
    [of None "\<lparr> results = [''bafy1''], count = Some 0 \<rparr>" 7 "initial\<lparr> totalUploads := 12 \<rparr>"]
  by simp

end
